theory Spec2Isabelle
  imports Main
begin

section \<open>The run-length codec of jRLE.cpp\<close>

text \<open>
  The four transforms of \<^verbatim>\<open>jRLE.cpp\<close> and the concatenation between them, as
  functions on \<open>string\<close> (a list of 8-bit characters, as \<^verbatim>\<open>std::string\<close> is).
  A \<^verbatim>\<open>std::vector<std::string>\<close> is a \<open>string list\<close>, \<^verbatim>\<open>push_back\<close> appends at the end.
  Loop counters are the source's \<^verbatim>\<open>int i\<close>, which only counts up from 0 to at most one
  past the length of the buffer; it is a \<open>nat\<close> here, exact for buffers shorter than
  \<open>2^31\<close> characters. \<^verbatim>\<open>longSeqStart\<close> and \<^verbatim>\<open>currentSeqStart\<close>, and every
  length computed from them by subtraction, are \<open>int\<close>, as in the source.
\<close>

subsection \<open>Exceptions and the library calls that raise them\<close>

text \<open>
  Every exception the core can raise is a value. \<open>Invalid_argument\<close> carries the message of the
  \<^verbatim>\<open>std::invalid_argument\<close> (for the one \<^verbatim>\<open>stoi\<close> raises, the name of the function),
  \<open>Out_of_range\<close> is \<^verbatim>\<open>std::out_of_range\<close> (from \<^verbatim>\<open>at\<close>, \<^verbatim>\<open>substr\<close>, \<^verbatim>\<open>stoi\<close>),
  \<open>Length_error\<close> is \<^verbatim>\<open>std::length_error\<close> (a string longer than \<^verbatim>\<open>max_size()\<close>).
  \<open>Undefined_behaviour\<close> marks a call the C++ standard gives no meaning:
  \<^verbatim>\<open>front()\<close> or \<^verbatim>\<open>back()\<close> of an empty string (\<open>back_of\<close> is \<^verbatim>\<open>back()\<close>).
\<close>

datatype error = Invalid_argument string | Out_of_range | Length_error | Undefined_behaviour

text \<open>
  Characters are bytes, and the buffers are ASCII, as the header of \<^verbatim>\<open>jRLE.cpp\<close> asks of
  the file. \<^verbatim>\<open>isdigit\<close> and \<^verbatim>\<open>isspace\<close> are those of the C locale. For a byte
  above 127 the sign of \<^verbatim>\<open>char\<close> is left to the implementation; the model reads every
  character as its unsigned code, which is exact on ASCII.
\<close>

definition isdigit :: "char \<Rightarrow> bool" where
  "isdigit c = (48 \<le> (of_char c :: nat) \<and> (of_char c :: nat) \<le> 57)"

definition isspace :: "char \<Rightarrow> bool" where
  "isspace c = ((of_char c :: nat) = 32 \<or> (9 \<le> (of_char c :: nat) \<and> (of_char c :: nat) \<le> 13))"

text \<open>\<^verbatim>\<open>v.at(i)\<close>: the element, or \<^verbatim>\<open>std::out_of_range\<close>.\<close>

definition at :: "'a list \<Rightarrow> nat \<Rightarrow> error + 'a" where
  "at v i = (if i < length v then Inr (v ! i) else Inl Out_of_range)"

text \<open>
  \<^verbatim>\<open>s.substr(pos, n)\<close> with \<^verbatim>\<open>int\<close> arguments. Both are converted to \<^verbatim>\<open>size_t\<close>:
  a negative one becomes a number above \<open>2^63\<close>, larger than any string, so a negative
  \<open>pos\<close> raises \<^verbatim>\<open>std::out_of_range\<close> as any \<open>pos\<close> beyond the length does, and a
  negative \<open>n\<close> takes the rest of the string.
\<close>

definition substr :: "string \<Rightarrow> int \<Rightarrow> int \<Rightarrow> error + string" where
  "substr s pos n =
     (if pos < 0 \<or> int (length s) < pos then Inl Out_of_range
      else Inr (take (if n < 0 then length s else nat n) (drop (nat pos) s)))"

definition front :: "string \<Rightarrow> error + char" where
  "front s = (case s of [] \<Rightarrow> Inl Undefined_behaviour | c # _ \<Rightarrow> Inr c)"

definition back_of :: "string \<Rightarrow> error + char" where
  "back_of s = (if s = [] then Inl Undefined_behaviour else Inr (last s))"

text \<open>
  \<^verbatim>\<open>std::string(n, c)\<close> with an \<^verbatim>\<open>int\<close> count: a negative count, converted to
  \<^verbatim>\<open>size_t\<close>, exceeds \<^verbatim>\<open>max_size()\<close> and raises \<^verbatim>\<open>std::length_error\<close>.
\<close>

definition string_fill :: "int \<Rightarrow> char \<Rightarrow> error + string" where
  "string_fill n c = (if n < 0 then Inl Length_error else Inr (replicate (nat n) c))"

text \<open>\<^verbatim>\<open>std::to_string\<close> of an unsigned number: its decimal digits, most significant first.\<close>

definition digit_char :: "nat \<Rightarrow> char" where
  "digit_char d = char_of (48 + d)"

fun to_string :: "nat \<Rightarrow> string" where
  "to_string n = (if n < 10 then [digit_char n] else to_string (n div 10) @ [digit_char (n mod 10)])"

declare to_string.simps [simp del]

text \<open>
  \<^verbatim>\<open>std::stoi(s)\<close> in base 10: leading white space is skipped, one sign is accepted, then
  the longest run of digits is read and the rest of the string ignored. No digit at all raises
  \<^verbatim>\<open>std::invalid_argument\<close>; a value outside the 32-bit \<^verbatim>\<open>int\<close> raises
  \<^verbatim>\<open>std::out_of_range\<close>.
\<close>

definition digit_val :: "char \<Rightarrow> int" where
  "digit_val c = of_char c - 48"

definition digits_value :: "string \<Rightarrow> int" where
  "digits_value ds = foldl (\<lambda>acc c. 10 * acc + digit_val c) 0 ds"

definition stoi :: "string \<Rightarrow> error + int" where
  "stoi s =
     (let s1 = dropWhile isspace s;
          negative = (s1 \<noteq> [] \<and> hd s1 = CHR ''-'');
          s2 = (if s1 \<noteq> [] \<and> (hd s1 = CHR ''-'' \<or> hd s1 = CHR ''+'') then tl s1 else s1);
          ds = takeWhile isdigit s2;
          v = (if negative then - digits_value ds else digits_value ds)
      in if ds = [] then Inl (Invalid_argument ''stoi'')
         else if v < - 2147483648 \<or> 2147483647 < v then Inl Out_of_range
         else Inr v)"

subsection \<open>tokenizeUnencoded\<close>

text \<open>
  The \<^verbatim>\<open>for\<close> loop of \<^verbatim>\<open>tokenizeUnencoded\<close>, one call per iteration; the state is the
  counter \<open>i\<close>, \<^verbatim>\<open>currentSeqStart\<close> and the vector \<^verbatim>\<open>dTokens\<close>. The test
  \<^verbatim>\<open>i == inText.length() - 1 || inText.at(i) != inText.at(i+1)\<close> short-circuits, so
  \<^verbatim>\<open>at(i+1)\<close> is only called when \<open>i\<close> is not the last index.
\<close>

function tokenizeUnencoded_loop :: "string \<Rightarrow> nat \<Rightarrow> int \<Rightarrow> string list \<Rightarrow> error + string list" where
  "tokenizeUnencoded_loop inText i currentSeqStart dTokens =
     (if i < length inText then
        (case (if i = length inText - 1 then Inr True
               else (case at inText i of
                       Inl e \<Rightarrow> Inl e
                     | Inr a \<Rightarrow> (case at inText (i + 1) of
                                   Inl e \<Rightarrow> Inl e
                                 | Inr b \<Rightarrow> Inr (a \<noteq> b)))) of
           Inl e \<Rightarrow> Inl e
         | Inr boundary \<Rightarrow>
             if boundary then
               (case substr inText currentSeqStart (int i - currentSeqStart + 1) of
                  Inl e \<Rightarrow> Inl e
                | Inr token \<Rightarrow>
                    tokenizeUnencoded_loop inText (i + 1) (int i + 1) (dTokens @ [token]))
             else tokenizeUnencoded_loop inText (i + 1) currentSeqStart dTokens)
      else Inr dTokens)"
  by pat_completeness auto
termination
  by (relation "measure (\<lambda>(inText, i, currentSeqStart, dTokens). length inText - i)") auto

declare tokenizeUnencoded_loop.simps [simp del]

definition tokenizeUnencoded :: "string \<Rightarrow> error + string list" where
  "tokenizeUnencoded inText =
     (if inText = [] then Inr [] else tokenizeUnencoded_loop inText 0 0 [])"

subsection \<open>tokenizeEncoded\<close>

text \<open>
  The scanner's loop. \<^verbatim>\<open>longSeqStart\<close> is \<open>- 1\<close> outside a long sequence. \<^verbatim>\<open>newToken\<close> is
  assigned in each of the three branches before it is read, so it is local to the iteration.
  \<^verbatim>\<open>inText.at(i)\<close> is in range by the loop's guard; \<^verbatim>\<open>inText.at(i+1)\<close> is not guarded
  and raises at the end of the buffer. An \<^verbatim>\<open>i++\<close> in the body adds to the loop's own.
\<close>

function tokenizeEncoded_loop :: "string \<Rightarrow> nat \<Rightarrow> int \<Rightarrow> string list \<Rightarrow> error + string list" where
  "tokenizeEncoded_loop inText i longSeqStart eTokens =
     (if i < length inText then
        (let currentChar = inText ! i in
         if longSeqStart \<noteq> - 1 then
           (if \<not> isdigit currentChar then
              (if currentChar = CHR ''#'' then
                 (case at inText (i + 1) of
                    Inl e \<Rightarrow> Inl e
                  | Inr nextChar \<Rightarrow>
                      if nextChar = CHR ''#'' then
                        (case substr inText longSeqStart (int i - longSeqStart + 2) of
                           Inl e \<Rightarrow> Inl e
                         | Inr newToken \<Rightarrow>
                             tokenizeEncoded_loop inText (i + 2) (int i + 2)
                               (if newToken \<noteq> [CHR 0x0A] then eTokens @ [newToken] else eTokens))
                      else
                        (case substr inText longSeqStart (int i - longSeqStart) of
                           Inl e \<Rightarrow> Inl e
                         | Inr newToken \<Rightarrow>
                             tokenizeEncoded_loop inText (i + 1) (int i + 1)
                               (if newToken \<noteq> [CHR 0x0A] then eTokens @ [newToken] else eTokens)))
               else
                 (case substr inText longSeqStart (int i - longSeqStart + 1) of
                    Inl e \<Rightarrow> Inl e
                  | Inr newToken \<Rightarrow>
                      tokenizeEncoded_loop inText (i + 1) (- 1)
                        (if newToken \<noteq> [CHR 0x0A] then eTokens @ [newToken] else eTokens)))
            else tokenizeEncoded_loop inText (i + 1) longSeqStart eTokens)
         else
           (if currentChar = CHR ''#'' then
              tokenizeEncoded_loop inText (i + 1) (int i + 1) eTokens
            else if \<not> isdigit (inText ! i) then
              (if inText ! i \<noteq> CHR 0x0A \<and> i < length inText - 1 then
                 Inl (Invalid_argument
                   (''Invalid encoded sequence. Non-digit char at position '' @ to_string i))
               else tokenizeEncoded_loop inText (i + 1) longSeqStart eTokens)
            else
              (case substr inText (int i) 2 of
                 Inl e \<Rightarrow> Inl e
               | Inr token \<Rightarrow>
                   if token \<noteq> [CHR 0x0A] then
                     tokenizeEncoded_loop inText (i + 2) longSeqStart (eTokens @ [token])
                   else tokenizeEncoded_loop inText (i + 1) longSeqStart eTokens)))
      else Inr eTokens)"
  by pat_completeness auto
termination
  by (relation "measure (\<lambda>(inText, i, longSeqStart, eTokens). length inText - i)") auto

declare tokenizeEncoded_loop.simps [simp del]

definition tokenizeEncoded :: "string \<Rightarrow> error + string list" where
  "tokenizeEncoded inText =
     (if inText = [] then Inr [] else tokenizeEncoded_loop inText 0 (- 1) [])"

subsection \<open>vectorConcatenate\<close>

definition vectorConcatenate :: "string list \<Rightarrow> string" where
  "vectorConcatenate inVect = foldl (\<lambda>outStr currentToken. outStr @ currentToken) [] inVect"

subsection \<open>encodeTokens\<close>

text \<open>
  The loop of \<^verbatim>\<open>encodeTokens\<close>. \<^verbatim>\<open>dTokens.at(i)\<close> is in range by the guard and
  \<^verbatim>\<open>dTokens.at(i-1)\<close> by the test \<^verbatim>\<open>i > 0\<close> before it. The escape test short-circuits:
  the previous token's \<^verbatim>\<open>front()\<close> is read only when the current one is no longer than 9
  and is not the first.
\<close>

function encodeTokens_loop :: "string list \<Rightarrow> nat \<Rightarrow> string list \<Rightarrow> error + string list" where
  "encodeTokens_loop dTokens i eTokens =
     (if i < length dTokens then
        (let currentToken = dTokens ! i in
         case (if 9 < length currentToken then Inr True
               else if 0 < i then
                 (case front (dTokens ! (i - 1)) of
                    Inl e \<Rightarrow> Inl e
                  | Inr p \<Rightarrow> Inr (isdigit p))
               else Inr False) of
           Inl e \<Rightarrow> Inl e
         | Inr escape \<Rightarrow>
             (case front currentToken of
                Inl e \<Rightarrow> Inl e
              | Inr c \<Rightarrow>
                  (let newToken = (if escape then ''#'' else []) @
                         to_string (length currentToken) @ [c];
                       newToken = (if c = CHR ''#'' then newToken @ ''#'' else newToken)
                   in encodeTokens_loop dTokens (i + 1) (eTokens @ [newToken]))))
      else Inr eTokens)"
  by pat_completeness auto
termination
  by (relation "measure (\<lambda>(dTokens, i, eTokens). length dTokens - i)") auto

declare encodeTokens_loop.simps [simp del]

definition encodeTokens :: "string list \<Rightarrow> error + string list" where
  "encodeTokens dTokens = (if dTokens = [] then Inr [] else encodeTokens_loop dTokens 0 [])"

subsection \<open>decodeTokens\<close>

text \<open>
  The body of the loop of \<^verbatim>\<open>decodeTokens\<close> for one token. \<^verbatim>\<open>front() - '0'\<close> is
  computed in \<^verbatim>\<open>int\<close>, whatever the character is. \<^verbatim>\<open>length() - 2\<close> and
  \<^verbatim>\<open>length() - 1\<close> are computed in \<^verbatim>\<open>size_t\<close> and wrap around for a shorter token,
  which \<open>substr\<close> reads as a negative number: the rest of the string.
\<close>

definition decodeToken :: "string \<Rightarrow> error + string" where
  "decodeToken currentToken =
     (if length currentToken = 2 then
        (case front currentToken of
           Inl e \<Rightarrow> Inl e
         | Inr f \<Rightarrow> (case back_of currentToken of
                       Inl e \<Rightarrow> Inl e
                     | Inr b \<Rightarrow> string_fill (of_char f - 48) b))
      else
        (case back_of currentToken of
           Inl e \<Rightarrow> Inl e
         | Inr b \<Rightarrow>
             if b = CHR ''#'' then
               (case substr currentToken 0 (int (length currentToken) - 2) of
                  Inl e \<Rightarrow> Inl e
                | Inr digits \<Rightarrow> (case stoi digits of
                                   Inl e \<Rightarrow> Inl e
                                 | Inr n \<Rightarrow> string_fill n (CHR ''#'')))
             else
               (case substr currentToken 0 (int (length currentToken) - 1) of
                  Inl e \<Rightarrow> Inl e
                | Inr digits \<Rightarrow> (case stoi digits of
                                   Inl e \<Rightarrow> Inl e
                                 | Inr n \<Rightarrow> string_fill n b))))"

function decodeTokens_loop :: "string list \<Rightarrow> nat \<Rightarrow> string list \<Rightarrow> error + string list" where
  "decodeTokens_loop eTokens i dTokens =
     (if i < length eTokens then
        (case decodeToken (eTokens ! i) of
           Inl e \<Rightarrow> Inl e
         | Inr d \<Rightarrow> decodeTokens_loop eTokens (i + 1) (dTokens @ [d]))
      else Inr dTokens)"
  by pat_completeness auto
termination
  by (relation "measure (\<lambda>(eTokens, i, dTokens). length eTokens - i)") auto

declare decodeTokens_loop.simps [simp del]

definition decodeTokens :: "string list \<Rightarrow> error + string list" where
  "decodeTokens eTokens = (if eTokens = [] then Inr [] else decodeTokens_loop eTokens 0 [])"

subsection \<open>The two pipelines of main\<close>

text \<open>
  \<^verbatim>\<open>main\<close> with \<^verbatim>\<open>-e\<close> computes \<^verbatim>\<open>vectorConcatenate(encodeTokens(tokenizeUnencoded(fileText)))\<close>
  and with \<^verbatim>\<open>-d\<close> \<^verbatim>\<open>vectorConcatenate(decodeTokens(tokenizeEncoded(fileText)))\<close>; an
  exception of any stage ends the run.
\<close>

definition encode :: "string \<Rightarrow> error + string" where
  "encode fileText =
     (case tokenizeUnencoded fileText of
        Inl e \<Rightarrow> Inl e
      | Inr inTokens \<Rightarrow> (case encodeTokens inTokens of
                          Inl e \<Rightarrow> Inl e
                        | Inr outTokens \<Rightarrow> Inr (vectorConcatenate outTokens)))"

definition decode :: "string \<Rightarrow> error + string" where
  "decode fileText =
     (case tokenizeEncoded fileText of
        Inl e \<Rightarrow> Inl e
      | Inr inTokens \<Rightarrow> (case decodeTokens inTokens of
                          Inl e \<Rightarrow> Inl e
                        | Inr outTokens \<Rightarrow> Inr (vectorConcatenate outTokens)))"

subsection \<open>Well-formed encoded buffers\<close>










section \<open>Properties of the loops\<close>

subsection \<open>tokenizeUnencoded: one equation per path through the loop body\<close>

lemma substr_in_range:
  "0 \<le> pos \<Longrightarrow> pos \<le> int (length s) \<Longrightarrow> 0 \<le> n \<Longrightarrow>
   substr s pos n = Inr (take (nat n) (drop (nat pos) s))"
  by (simp add: substr_def)

lemma tokenizeUnencoded_loop_end:
  "\<not> i < length s \<Longrightarrow> tokenizeUnencoded_loop s i c acc = Inr acc"
  by (subst tokenizeUnencoded_loop.simps) simp

lemma tokenizeUnencoded_loop_boundary:
  assumes "i < length s" "c \<le> i" "i = length s - 1 \<or> s ! i \<noteq> s ! (i + 1)"
  shows "tokenizeUnencoded_loop s i (int c) acc =
         tokenizeUnencoded_loop s (i + 1) (int (i + 1)) (acc @ [take (i + 1 - c) (drop c s)])"
proof -
  have sub: "substr s (int c) (int i - int c + 1) = Inr (take (i + 1 - c) (drop c s))"
  proof -
    have "nat (int i - int c + 1) = i + 1 - c" using assms by linarith
    then show ?thesis using assms by (simp add: substr_in_range)
  qed
  have cond: "(if i = length s - 1 then Inr True
               else (case at s i of Inl e \<Rightarrow> Inl e
                     | Inr a \<Rightarrow> (case at s (i + 1) of Inl e \<Rightarrow> Inl e | Inr b \<Rightarrow> Inr (a \<noteq> b)))) =
              (Inr True :: error + bool)"
    using assms by (auto simp: at_def)
  have "tokenizeUnencoded_loop s i (int c) acc =
         tokenizeUnencoded_loop s (i + 1) (int i + 1) (acc @ [take (i + 1 - c) (drop c s)])"
    by (subst tokenizeUnencoded_loop.simps) (simp only: assms(1) if_True cond sub sum.case)
  moreover have "int i + 1 = int (i + 1)" by simp
  ultimately show ?thesis by (simp only:)
qed

lemma tokenizeUnencoded_loop_inside:
  assumes "i + 1 < length s" "s ! i = s ! (i + 1)"
  shows "tokenizeUnencoded_loop s i c acc = tokenizeUnencoded_loop s (i + 1) c acc"
proof -
  have cond: "(if i = length s - 1 then Inr True
               else (case at s i of Inl e \<Rightarrow> Inl e
                     | Inr a \<Rightarrow> (case at s (i + 1) of Inl e \<Rightarrow> Inl e | Inr b \<Rightarrow> Inr (a \<noteq> b)))) =
              (Inr False :: error + bool)"
    using assms by (auto simp: at_def)
  have lt: "i < length s" using assms by simp
  show ?thesis
    by (subst tokenizeUnencoded_loop.simps) (simp only: lt if_True if_False cond sum.case)
qed

lemma run_slice:
  assumes "c \<le> i" "i < length s" "\<forall>k. c \<le> k \<and> k \<le> i \<longrightarrow> s ! c = s ! k"
  shows "take (i + 1 - c) (drop c s) \<noteq> []"
    and "hd (take (i + 1 - c) (drop c s)) = s ! c"
    and "\<forall>x\<in>set (take (i + 1 - c) (drop c s)). x = s ! c"
proof -
  show "take (i + 1 - c) (drop c s) \<noteq> []" using assms by simp
  show "hd (take (i + 1 - c) (drop c s)) = s ! c"
    using assms by (simp add: hd_drop_conv_nth)
  show "\<forall>x\<in>set (take (i + 1 - c) (drop c s)). x = s ! c"
  proof
    fix x assume "x \<in> set (take (i + 1 - c) (drop c s))"
    then obtain j where j: "j < length (take (i + 1 - c) (drop c s))"
      and x: "x = take (i + 1 - c) (drop c s) ! j"
      by (auto simp: in_set_conv_nth)
    from j assms have "j < i + 1 - c" by simp
    with x assms(1,2) have "x = s ! (c + j)" by simp
    moreover have "s ! c = s ! (c + j)" using \<open>j < i + 1 - c\<close> assms(3) by simp
    ultimately show "x = s ! c" by simp
  qed
qed

lemma tokenizeUnencoded_loop_runs:
  assumes "c \<le> i" "i \<le> length s" "i = length s \<longrightarrow> c = length s"
    and "concat acc = take c s"
    and "\<forall>t\<in>set acc. t \<noteq> [] \<and> (\<forall>x\<in>set t. x = hd t)"
    and "distinct_adj (map hd acc)"
    and "acc \<noteq> [] \<and> c < length s \<longrightarrow> hd (last acc) \<noteq> s ! c"
    and "\<forall>k. c \<le> k \<and> k \<le> i \<and> k < length s \<longrightarrow> s ! c = s ! k"
  shows "\<exists>ts. tokenizeUnencoded_loop s i (int c) acc = Inr ts \<and> concat ts = s \<and>
           (\<forall>t\<in>set ts. t \<noteq> [] \<and> (\<forall>x\<in>set t. x = hd t)) \<and> distinct_adj (map hd ts)"
  using assms
proof (induction "length s - i" arbitrary: i c acc)
  case 0
  then have "i = length s" "c = length s" by simp_all
  with 0(5,6,7) show ?case by (simp add: tokenizeUnencoded_loop_end)
next
  case (Suc n)
  then have lt: "i < length s" and n: "n = length s - (i + 1)" by simp_all
  show ?case
  proof (cases "i = length s - 1 \<or> s ! i \<noteq> s ! (i + 1)")
    case True
    let ?tok = "take (i + 1 - c) (drop c s)"
    have unif: "\<forall>k. c \<le> k \<and> k \<le> i \<longrightarrow> s ! c = s ! k" using Suc.prems(8) lt by simp
    note rs = run_slice [OF Suc.prems(1) lt unif]
    have eq: "tokenizeUnencoded_loop s i (int c) acc =
              tokenizeUnencoded_loop s (i + 1) (int (i + 1)) (acc @ [?tok])"
      by (rule tokenizeUnencoded_loop_boundary [OF lt Suc.prems(1) True])
    have cat: "concat (acc @ [?tok]) = take (i + 1) s"
      using Suc.prems(1,4) take_add [of c "i + 1 - c" s] by simp
    have uni: "\<forall>t\<in>set (acc @ [?tok]). t \<noteq> [] \<and> (\<forall>x\<in>set t. x = hd t)"
      using Suc.prems(5) rs by auto
    have adj: "distinct_adj (map hd (acc @ [?tok]))"
      using Suc.prems(6,7) rs(2) lt Suc.prems(1)
      by (auto simp: distinct_adj_append_iff last_map)
    have "s ! c = s ! i" using unif Suc.prems(1) by simp
    then have nxt: "acc @ [?tok] \<noteq> [] \<and> i + 1 < length s \<longrightarrow> hd (last (acc @ [?tok])) \<noteq> s ! (i + 1)"
      using True rs(2) by auto
    have "\<exists>ts. tokenizeUnencoded_loop s (i + 1) (int (i + 1)) (acc @ [?tok]) = Inr ts \<and> concat ts = s \<and>
           (\<forall>t\<in>set ts. t \<noteq> [] \<and> (\<forall>x\<in>set t. x = hd t)) \<and> distinct_adj (map hd ts)"
      using lt by (intro Suc.hyps(1) [OF n _ _ _ cat uni adj nxt]) auto
    then show ?thesis by (simp only: eq)
  next
    case False
    then have lt2: "i + 1 < length s" and same: "s ! i = s ! (i + 1)" using lt by auto
    have eq: "tokenizeUnencoded_loop s i (int c) acc = tokenizeUnencoded_loop s (i + 1) (int c) acc"
      by (rule tokenizeUnencoded_loop_inside [OF lt2 same])
    have unif: "\<forall>k. c \<le> k \<and> k \<le> i + 1 \<and> k < length s \<longrightarrow> s ! c = s ! k"
    proof (intro allI impI)
      fix k assume k: "c \<le> k \<and> k \<le> i + 1 \<and> k < length s"
      show "s ! c = s ! k"
      proof (cases "k = i + 1")
        case True
        have "s ! c = s ! i" using Suc.prems(1,8) lt by simp
        with same True show ?thesis by simp
      next
        case False
        with k have "c \<le> k \<and> k \<le> i \<and> k < length s" by simp
        with Suc.prems(8) show ?thesis by blast
      qed
    qed
    have "\<exists>ts. tokenizeUnencoded_loop s (i + 1) (int c) acc = Inr ts \<and> concat ts = s \<and>
           (\<forall>t\<in>set ts. t \<noteq> [] \<and> (\<forall>x\<in>set t. x = hd t)) \<and> distinct_adj (map hd ts)"
      using lt2 Suc.prems(1)
      by (intro Suc.hyps(1) [OF n _ _ _ Suc.prems(4,5,6,7) unif]) simp_all
    then show ?thesis by (simp only: eq)
  qed
qed

lemma vectorConcatenate_foldl: "foldl (\<lambda>outStr currentToken. outStr @ currentToken) acc v = acc @ concat v"
  by (induction v arbitrary: acc) simp_all

lemma vectorConcatenate_concat: "vectorConcatenate v = concat v"
  by (simp add: vectorConcatenate_def vectorConcatenate_foldl)

lemma tokenizeUnencoded_runs:
  "\<exists>ts. tokenizeUnencoded s = Inr ts \<and> concat ts = s \<and>
        (\<forall>t\<in>set ts. t \<noteq> [] \<and> (\<forall>x\<in>set t. x = hd t)) \<and> distinct_adj (map hd ts)"
proof (cases "s = []")
  case True
  then show ?thesis by (simp add: tokenizeUnencoded_def)
next
  case False
  have "\<exists>ts. tokenizeUnencoded_loop s 0 (int 0) [] = Inr ts \<and> concat ts = s \<and>
           (\<forall>t\<in>set ts. t \<noteq> [] \<and> (\<forall>x\<in>set t. x = hd t)) \<and> distinct_adj (map hd ts)"
    using False by (intro tokenizeUnencoded_loop_runs) simp_all
  with False show ?thesis by (simp add: tokenizeUnencoded_def)
qed

subsection \<open>encodeTokens: the token written for each index\<close>

lemma front_nonempty: "t \<noteq> [] \<Longrightarrow> front t = Inr (hd t)"
  by (cases t) (simp_all add: front_def)

lemma encodeTokens_loop_map:
  assumes ne: "\<forall>t\<in>set dTokens. t \<noteq> []"
  shows "encodeTokens_loop dTokens i eTokens =
     Inr (eTokens @
       map (\<lambda>j. (if 9 < length (dTokens ! j) \<or> (0 < j \<and> isdigit (hd (dTokens ! (j - 1))))
                  then ''#'' else []) @
                 to_string (length (dTokens ! j)) @ [hd (dTokens ! j)] @
                 (if hd (dTokens ! j) = CHR ''#'' then ''#'' else []))
           [i..<length dTokens])"
proof (induction "length dTokens - i" arbitrary: i eTokens)
  case 0
  then show ?case by (simp add: encodeTokens_loop.simps [of dTokens i])
next
  case (Suc n)
  then have lt: "i < length dTokens" and n: "n = length dTokens - (i + 1)" by simp_all
  from lt ne have cur: "front (dTokens ! i) = Inr (hd (dTokens ! i))"
    by (simp add: front_nonempty)
  have prev: "0 < i \<Longrightarrow> front (dTokens ! (i - 1)) = Inr (hd (dTokens ! (i - 1)))"
    using lt ne by (simp add: front_nonempty)
  have esc: "(if 9 < length (dTokens ! i) then Inr True
              else if 0 < i then
                (case front (dTokens ! (i - 1)) of Inl e \<Rightarrow> Inl e | Inr p \<Rightarrow> Inr (isdigit p))
              else Inr False) =
             Inr (9 < length (dTokens ! i) \<or> (0 < i \<and> isdigit (hd (dTokens ! (i - 1)))))"
    using prev by simp
  have step: "encodeTokens_loop dTokens i eTokens =
      encodeTokens_loop dTokens (i + 1) (eTokens @
        [(if 9 < length (dTokens ! i) \<or> (0 < i \<and> isdigit (hd (dTokens ! (i - 1))))
          then ''#'' else []) @
         to_string (length (dTokens ! i)) @ [hd (dTokens ! i)] @
         (if hd (dTokens ! i) = CHR ''#'' then ''#'' else [])])"
    by (subst encodeTokens_loop.simps) (simp only: lt if_True Let_def esc cur sum.case, simp)
  show ?case
    using lt by (simp only: step Suc.hyps(1) [OF n], simp add: upt_conv_Cons)
qed

lemma encodeTokens_map:
  assumes ne: "\<forall>t\<in>set dTokens. t \<noteq> []"
  shows "encodeTokens dTokens =
     Inr (map (\<lambda>j. (if 9 < length (dTokens ! j) \<or> (0 < j \<and> isdigit (hd (dTokens ! (j - 1))))
                     then ''#'' else []) @
                    to_string (length (dTokens ! j)) @ [hd (dTokens ! j)] @
                    (if hd (dTokens ! j) = CHR ''#'' then ''#'' else []))
              [0..<length dTokens])"
  by (cases "dTokens = []") (simp_all add: encodeTokens_def encodeTokens_loop_map [OF ne])

subsection \<open>tokenizeEncoded: one equation per path through the loop body\<close>

lemma isdigit_not_marker: "isdigit c \<Longrightarrow> c \<noteq> CHR ''#'' \<and> c \<noteq> CHR 0x0A"
  by (auto simp: isdigit_def)




lemma tokenizeEncoded_loop_normal_throw:
  assumes "i < length s - 1" "s ! i \<noteq> CHR ''#''" "\<not> isdigit (s ! i)" "s ! i \<noteq> CHR 0x0A"
  shows "tokenizeEncoded_loop s i (- 1) acc =
         Inl (Invalid_argument (''Invalid encoded sequence. Non-digit char at position '' @ to_string i))"
  using assms by (subst tokenizeEncoded_loop.simps) (simp add: Let_def)






lemma tokenizeEncoded_loop_long_hash_at_end:
  assumes "i + 1 = length s" "s ! i = CHR ''#''"
  shows "tokenizeEncoded_loop s i (int p) acc = Inl Out_of_range"
proof -
  have nd: "\<not> isdigit (s ! i)" using assms(2) isdigit_not_marker by blast
  have lt: "i < length s" using assms(1) by simp
  show ?thesis
    using assms nd lt by (subst tokenizeEncoded_loop.simps) (simp add: Let_def at_def)
qed


subsection \<open>tokenizeEncoded: the tokens of a well-formed buffer\<close>















subsection \<open>decodeTokens: the three shapes of a token\<close>

lemma stoi_no_digits:
  assumes "s = [] \<or> hd s = CHR ''#''"
  shows "stoi s = Inl (Invalid_argument ''stoi'')"
proof (cases s)
  case Nil
  then show ?thesis by (simp add: stoi_def)
next
  case (Cons c cs)
  with assms have c: "c = CHR ''#''" by simp
  have "\<not> isspace (CHR ''#'')" "\<not> isdigit (CHR ''#'')" by (simp_all add: isspace_def isdigit_def)
  then show ?thesis unfolding Cons c by (simp add: stoi_def)
qed

lemma decodeToken_two:
  "decodeToken [a, b] = string_fill (of_char a - 48) b"
  by (simp add: decodeToken_def front_def back_of_def)

lemma decodeToken_hash:
  assumes "length t \<noteq> 2" "t \<noteq> []" "last t = CHR ''#''"
  shows "decodeToken t =
     (case stoi (if length t = 1 then t else take (length t - 2) t) of
        Inl e \<Rightarrow> Inl e | Inr n \<Rightarrow> string_fill n (CHR ''#''))"
proof (cases "length t = 1")
  case True
  then have "substr t 0 (int (length t) - 2) = Inr t" by (simp add: substr_def)
  with assms True show ?thesis by (simp add: decodeToken_def back_of_def)
next
  case False
  moreover from assms(2) have "length t \<noteq> 0" by simp
  ultimately have "3 \<le> length t" using assms(1) by linarith
  then have "nat (int (length t) - 2) = length t - 2" by linarith
  then have "substr t 0 (int (length t) - 2) = Inr (take (length t - 2) t)"
    using \<open>3 \<le> length t\<close> by (simp add: substr_def)
  with assms False show ?thesis by (simp add: decodeToken_def back_of_def)
qed

lemma decodeToken_other:
  assumes "length t \<noteq> 2" "t \<noteq> []" "last t \<noteq> CHR ''#''"
  shows "decodeToken t =
     (case stoi (butlast t) of Inl e \<Rightarrow> Inl e | Inr n \<Rightarrow> string_fill n (last t))"
proof -
  from assms(2) have "1 \<le> length t" by (cases t) auto
  then have "nat (int (length t) - 1) = length t - 1" by linarith
  then have "substr t 0 (int (length t) - 1) = Inr (butlast t)"
    using \<open>1 \<le> length t\<close> by (simp add: substr_def butlast_conv_take)
  with assms show ?thesis by (simp add: decodeToken_def back_of_def)
qed

lemma decodeToken_empty: "decodeToken [] = Inl Undefined_behaviour"
  by (simp add: decodeToken_def back_of_def)

lemma digits_fold_nonneg:
  "list_all isdigit ds \<Longrightarrow> 0 \<le> a \<Longrightarrow> 0 \<le> foldl (\<lambda>acc c. 10 * acc + digit_val c) a ds"
proof (induction ds arbitrary: a)
  case Nil
  then show ?case by simp
next
  case (Cons d ds)
  then have "48 \<le> (of_char d :: nat)" by (simp add: isdigit_def)
  then have "(48::int) \<le> int (of_char d)" by linarith
  then have "0 \<le> digit_val d" by (simp add: digit_val_def of_nat_of_char)
  with Cons.prems have "0 \<le> 10 * a + digit_val d" by simp
  with Cons show ?case by simp
qed

lemma stoi_digits:
  assumes "ds \<noteq> []" "list_all isdigit ds" "digits_value ds \<le> 2147483647"
  shows "stoi ds = Inr (digits_value ds) \<and> 0 \<le> digits_value ds"
proof -
  from assms(1) obtain d ds' where ds: "ds = d # ds'" by (cases ds) auto
  with assms(2) have d: "isdigit d" by simp
  then have ns: "\<not> isspace d" and sg: "d \<noteq> CHR ''-''" "d \<noteq> CHR ''+''"
    by (auto simp: isdigit_def isspace_def)
  have tw: "takeWhile isdigit ds = ds"
    using assms(2) by (simp add: takeWhile_eq_all_conv list_all_iff)
  have nn: "0 \<le> digits_value ds"
    unfolding digits_value_def using assms(2) by (rule digits_fold_nonneg) simp
  have dw: "dropWhile isspace ds = ds" unfolding ds using ns by simp
  show ?thesis
    using nn assms(1,3) sg tw unfolding stoi_def dw Let_def by (simp add: ds)
qed

lemma decodeToken_decodable:
  assumes ne: "t \<noteq> []"
    and ok: "if length t = 2 then (48::int) \<le> of_char (t ! 0)
             else \<exists>n\<ge>0. stoi (if last t = CHR ''#'' then take (length t - 2) t else butlast t) = Inr n"
  shows "decodeToken t =
     Inr (if length t = 2 then replicate (nat (of_char (t ! 0) - 48)) (t ! 1)
          else if last t = CHR ''#''
          then replicate (nat (projr (stoi (take (length t - 2) t)))) (CHR ''#'')
          else replicate (nat (projr (stoi (butlast t)))) (last t))"
proof (cases "length t = 2")
  case True
  then obtain a b where t: "t = [a, b]"
    by (metis One_nat_def Suc_1 length_0_conv length_Suc_conv)
  with ok have "(48::int) \<le> of_char a" by simp
  then show ?thesis unfolding t by (simp add: decodeToken_two string_fill_def)
next
  case len: False
  show ?thesis
  proof (cases "last t = CHR ''#''")
    case True
    with ok len obtain n where n: "0 \<le> n" "stoi (take (length t - 2) t) = Inr n" by auto
    have "length t \<noteq> 1"
    proof
      assume "length t = 1"
      then have "take (length t - 2) t = []" by simp
      with n(2) show False by (simp add: stoi_no_digits)
    qed
    with len ne True n show ?thesis by (simp add: decodeToken_hash string_fill_def)
  next
    case False
    with ok len obtain n where n: "0 \<le> n" "stoi (butlast t) = Inr n" by auto
    with len ne False show ?thesis by (simp add: decodeToken_other string_fill_def)
  qed
qed

lemma decodeToken_leading_marker:
  assumes "t \<noteq> []" "hd t = CHR ''#''"
  shows "decodeToken t = Inl (if length t = 2 then Length_error else Invalid_argument ''stoi'')"
proof (cases "length t = 2")
  case True
  then obtain a b where t: "t = [a, b]"
    by (metis One_nat_def Suc_1 length_0_conv length_Suc_conv)
  with assms have "a = CHR ''#''" by simp
  then show ?thesis unfolding t by (simp add: decodeToken_two string_fill_def)
next
  case len: False
  show ?thesis
  proof (cases "last t = CHR ''#''")
    case True
    have "hd (if length t = 1 then t else take (length t - 2) t) = CHR ''#'' \<or>
          (if length t = 1 then t else take (length t - 2) t) = []"
      using assms by (cases t) auto
    then have "stoi (if length t = 1 then t else take (length t - 2) t) =
               Inl (Invalid_argument ''stoi'')"
      by (intro stoi_no_digits) auto
    with len assms True show ?thesis by (simp add: decodeToken_hash)
  next
    case False
    have "butlast t = [] \<or> hd (butlast t) = CHR ''#''"
      using assms by (cases t) auto
    then have "stoi (butlast t) = Inl (Invalid_argument ''stoi'')" by (rule stoi_no_digits)
    with len assms False show ?thesis by (simp add: decodeToken_other)
  qed
qed

lemma decodeTokens_loop_all:
  assumes "\<forall>t\<in>set ts. decodeToken t = Inr (f t)"
  shows "decodeTokens_loop ts i acc = Inr (acc @ map f (drop i ts))"
proof (induction "length ts - i" arbitrary: i acc)
  case 0
  then show ?case by (simp add: decodeTokens_loop.simps [of ts i])
next
  case (Suc n)
  then have lt: "i < length ts" and n: "n = length ts - (i + 1)" by simp_all
  from lt assms have d: "decodeToken (ts ! i) = Inr (f (ts ! i))" by simp
  have "decodeTokens_loop ts i acc = decodeTokens_loop ts (i + 1) (acc @ [f (ts ! i)])"
    using lt d by (subst decodeTokens_loop.simps) simp
  also have "\<dots> = Inr ((acc @ [f (ts ! i)]) @ map f (drop (i + 1) ts))"
    by (rule Suc.hyps(1) [OF n])
  also have "(acc @ [f (ts ! i)]) @ map f (drop (i + 1) ts) = acc @ map f (drop i ts)"
    using lt by (simp add: Cons_nth_drop_Suc [symmetric])
  finally show ?case .
qed

lemma decodeTokens_loop_first_failure:
  assumes "\<forall>t\<in>set good. decodeToken t = Inr (f t)" "decodeToken t = Inl e" "i \<le> length good"
  shows "decodeTokens_loop (good @ t # rest) i acc = Inl e"
  using assms(3)
proof (induction "length good - i" arbitrary: i acc)
  case 0
  then have i: "i = length good" by simp
  show ?case unfolding i using assms(2) by (subst decodeTokens_loop.simps) simp
next
  case (Suc n)
  then have lt: "i < length good" and n: "n = length good - (i + 1)" by simp_all
  from lt assms(1) have d: "decodeToken ((good @ t # rest) ! i) = Inr (f (good ! i))"
    by (simp add: nth_append)
  have "decodeTokens_loop (good @ t # rest) i acc =
        decodeTokens_loop (good @ t # rest) (i + 1) (acc @ [f (good ! i)])"
    using lt d by (subst decodeTokens_loop.simps) simp
  also have "\<dots> = Inl e" using lt by (intro Suc.hyps(1) [OF n]) simp
  finally show ?case .
qed

section \<open>The claims about the two encoding stages\<close>

text \<open>
  C6. \<open>tokenizeUnencoded\<close> raises nothing: for every input string it returns a vector of
  tokens, and \<open>vectorConcatenate\<close> of that vector is the input string. On the empty string the
  vector is empty.
\<close>

theorem tokenizeUnencoded_concatenates_to_input:
  "(\<exists>dTokens. tokenizeUnencoded inText = Inr dTokens \<and> vectorConcatenate dTokens = inText) \<and>
   tokenizeUnencoded [] = Inr []"
proof -
  obtain ts where "tokenizeUnencoded inText = Inr ts" "concat ts = inText"
    using tokenizeUnencoded_runs [of inText] by blast
  then show ?thesis
    by (simp add: vectorConcatenate_concat tokenizeUnencoded_def)
qed

text \<open>
  C7. Every token that \<open>tokenizeUnencoded\<close> returns is a run: it is not empty and consists of
  its first character repeated. Two tokens next to each other never start with the same
  character, so each run is maximal.
\<close>

theorem tokenizeUnencoded_maximal_runs:
  "\<exists>dTokens. tokenizeUnencoded inText = Inr dTokens \<and>
     (\<forall>t\<in>set dTokens. t \<noteq> [] \<and> t = replicate (length t) (hd t)) \<and>
     (\<forall>j. Suc j < length dTokens \<longrightarrow> hd (dTokens ! j) \<noteq> hd (dTokens ! Suc j))"
proof -
  obtain ts where ts: "tokenizeUnencoded inText = Inr ts"
    and uni: "\<forall>t\<in>set ts. t \<noteq> [] \<and> (\<forall>x\<in>set t. x = hd t)"
    and adj: "distinct_adj (map hd ts)"
    using tokenizeUnencoded_runs [of inText] by blast
  have "\<forall>t\<in>set ts. t \<noteq> [] \<and> t = replicate (length t) (hd t)"
  proof
    fix t assume "t \<in> set ts"
    with uni have "t \<noteq> []" and "\<forall>x\<in>set t. x = hd t" by simp_all
    then show "t \<noteq> [] \<and> t = replicate (length t) (hd t)"
      by (simp add: replicate_length_same)
  qed
  moreover have "\<forall>j. Suc j < length ts \<longrightarrow> hd (ts ! j) \<noteq> hd (ts ! Suc j)"
  proof (intro allI impI)
    fix j assume j: "Suc j < length ts"
    then have "map hd ts ! j \<noteq> map hd ts ! Suc j"
      using adj by (intro distinct_adj_nth) simp_all
    with j show "hd (ts ! j) \<noteq> hd (ts ! Suc j)" by simp
  qed
  ultimately show ?thesis using ts by blast
qed

theorem tokenizeUnencoded_maximal_runs_witness:
  "tokenizeUnencoded ''aab'' = Inr [''aa'', ''b''] \<and>
   ''aa'' = replicate (length ''aa'') (hd ''aa'') \<and> hd ''aa'' \<noteq> hd ''b''"
proof -
  have run: "tokenizeUnencoded ''aab'' = Inr [''aa'', ''b'']" by code_simp
  obtain ts where ts: "tokenizeUnencoded ''aab'' = Inr ts"
    and uni: "\<forall>t\<in>set ts. t \<noteq> [] \<and> t = replicate (length t) (hd t)"
    and adj: "\<forall>j. Suc j < length ts \<longrightarrow> hd (ts ! j) \<noteq> hd (ts ! Suc j)"
    using tokenizeUnencoded_maximal_runs [of "''aab''"] by blast
  from ts run have eq: "ts = [''aa'', ''b'']" by simp
  from uni eq have "''aa'' = replicate (length ''aa'') (hd ''aa'')" by simp
  moreover from adj [rule_format, of 0] eq have "hd ''aa'' \<noteq> hd ''b''" by simp
  ultimately show ?thesis using run by blast
qed

text \<open>
  C4. For a vector of nonempty tokens (runs in particular) \<open>encodeTokens\<close> raises nothing and
  returns one token per run. The token for the run at index \<open>i\<close> is, in this order: a \<open>#\<close>
  exactly when the run is 10 or more characters long, or \<open>i > 0\<close> and the previous run starts with
  a digit; the decimal digits of the run's length; the run's first character; and one more \<open>#\<close>
  exactly when that character is \<open>#\<close>.
\<close>

theorem encodeTokens_token_shape:
  assumes "\<forall>t\<in>set dTokens. t \<noteq> []"
  shows "\<exists>eTokens. encodeTokens dTokens = Inr eTokens \<and> length eTokens = length dTokens \<and>
     (\<forall>i<length dTokens. eTokens ! i =
        (if 10 \<le> length (dTokens ! i) \<or> (0 < i \<and> isdigit (hd (dTokens ! (i - 1))))
         then ''#'' else []) @
        to_string (length (dTokens ! i)) @ [hd (dTokens ! i)] @
        (if hd (dTokens ! i) = CHR ''#'' then ''#'' else []))"
proof -
  have ten: "(9 < length t) = (10 \<le> length t)" for t :: string by arith
  show ?thesis
    unfolding encodeTokens_map [OF assms] ten by simp
qed


theorem encodeTokens_token_shape_witness:
  "\<exists>eTokens. encodeTokens [''111'', ''aa'', ''###'', ''bbbbbbbbbbbb''] = Inr eTokens \<and>
     length eTokens = 4 \<and> eTokens ! 0 = ''31'' \<and> eTokens ! 1 = ''#2a'' \<and>
     eTokens ! 2 = ''3##'' \<and> eTokens ! 3 = ''#12b''"
proof -
  let ?d = "[''111'', ''aa'', ''###'', ''bbbbbbbbbbbb'']"
  have ne: "\<forall>t\<in>set ?d. t \<noteq> []" by simp
  obtain eTokens where e: "encodeTokens ?d = Inr eTokens" and len: "length eTokens = length ?d"
    using encodeTokens_token_shape [OF ne] by blast
  have run: "encodeTokens ?d = Inr [''31'', ''#2a'', ''3##'', ''#12b'']" by code_simp
  from e run have "eTokens = [''31'', ''#2a'', ''3##'', ''#12b'']" by simp
  with e show ?thesis by simp
qed

text \<open>
  C10. On nonempty tokens the output of \<open>encodeTokens\<close> is a function of the lengths and the
  first characters alone: two vectors that agree on these have the same encoding. So a token
  may be replaced by its first character repeated to the same length without changing the
  output, and \<open>abc\<close> is encoded as \<open>aaa\<close> is.
\<close>

theorem encodeTokens_reads_length_and_front_only:
  assumes "\<forall>t\<in>set dTokens. t \<noteq> []"
  shows "(\<forall>dTokens'. length dTokens' = length dTokens \<and>
            (\<forall>j<length dTokens. length (dTokens' ! j) = length (dTokens ! j) \<and>
                                hd (dTokens' ! j) = hd (dTokens ! j)) \<longrightarrow>
            encodeTokens dTokens' = encodeTokens dTokens) \<and>
         (\<forall>j<length dTokens.
            encodeTokens (dTokens[j := replicate (length (dTokens ! j)) (hd (dTokens ! j))]) =
            encodeTokens dTokens)"
proof -
  have agree: "encodeTokens ds' = encodeTokens dTokens"
    if len: "length ds' = length dTokens"
      and same: "\<forall>j<length dTokens. length (ds' ! j) = length (dTokens ! j) \<and>
                   hd (ds' ! j) = hd (dTokens ! j)"
    for ds'
  proof -
    have ne': "\<forall>t\<in>set ds'. t \<noteq> []"
    proof
      fix t assume "t \<in> set ds'"
      then obtain j where j: "j < length ds'" "t = ds' ! j" by (auto simp: in_set_conv_nth)
      with len assms have "dTokens ! j \<noteq> []" by simp
      moreover from j len same have "length t = length (dTokens ! j)" by simp
      ultimately show "t \<noteq> []" by auto
    qed
    have prev: "j - 1 < length dTokens" if "j < length dTokens" for j using that by simp
    show ?thesis
      unfolding encodeTokens_map [OF ne'] encodeTokens_map [OF assms] len
      using same prev by (intro arg_cong [where f = Inr] map_cong) simp_all
  qed
  have "encodeTokens (dTokens[j := replicate (length (dTokens ! j)) (hd (dTokens ! j))]) =
        encodeTokens dTokens" if j: "j < length dTokens" for j
  proof (rule agree)
    show "length (dTokens[j := replicate (length (dTokens ! j)) (hd (dTokens ! j))]) = length dTokens"
      by simp
    from j assms have "dTokens ! j \<noteq> []" by simp
    with j show "\<forall>k<length dTokens.
        length (dTokens[j := replicate (length (dTokens ! j)) (hd (dTokens ! j))] ! k) =
          length (dTokens ! k) \<and>
        hd (dTokens[j := replicate (length (dTokens ! j)) (hd (dTokens ! j))] ! k) = hd (dTokens ! k)"
      by (auto simp: nth_list_update)
  qed
  with agree show ?thesis by blast
qed

theorem encodeTokens_reads_length_and_front_only_witness:
  "encodeTokens [''abc''] = encodeTokens [''aaa''] \<and> encodeTokens [''aaa''] = Inr [''3a'']"
proof -
  have ne: "\<forall>t\<in>set [''abc'']. t \<noteq> []" by simp
  have "\<forall>j<length [''abc''].
          encodeTokens ([''abc''][j := replicate (length ([''abc''] ! j)) (hd ([''abc''] ! j))]) =
          encodeTokens [''abc'']"
    using encodeTokens_reads_length_and_front_only [OF ne] by (rule conjunct2)
  then have "encodeTokens ([''abc''][0 := replicate (length ([''abc''] ! 0)) (hd ([''abc''] ! 0))]) =
        encodeTokens [''abc'']"
    by simp
  moreover have "[''abc''][0 := replicate (length ([''abc''] ! 0)) (hd ([''abc''] ! 0))] = [''aaa'']"
    by (simp add: numeral_3_eq_3)
  moreover have "encodeTokens [''aaa''] = Inr [''3a'']" by code_simp
  ultimately show ?thesis by simp
qed

section \<open>The claims about the two decoding stages\<close>




text \<open>
  C5, as the code has it. Take a vector of nonempty tokens in which a token of length 2 has a
  first character not below \<open>0\<close>, and any other token a numeral part that \<open>stoi\<close> reads as a
  number that is not negative: the token without its last two characters when it ends with
  \<open>#\<close>, the token without its last character otherwise (by \<open>stoi_digits\<close> a decimal count in
  the range of \<^verbatim>\<open>int\<close> is such a part). \<open>decodeTokens\<close> decodes the vector, token by token:
  a token of length 2 to its second character, repeated as many times as the first character's
  code exceeds that of \<open>0\<close>; any other token that ends with \<open>#\<close> to \<open>#\<close>, repeated as many times
  as \<open>stoi\<close> of its numeral part says; any other token to its last character, repeated as many
  times as \<open>stoi\<close> of its numeral part says. No leading \<open>#\<close> is dropped: a token that starts
  with \<open>#\<close>, after such a vector, ends the decoding with \<^verbatim>\<open>std::length_error\<close> when it has
  length 2 and with the \<^verbatim>\<open>std::invalid_argument\<close> of \<open>stoi\<close> otherwise.
\<close>

theorem decodeTokens_dispatch_by_shape:
  assumes "\<forall>t\<in>set eTokens. t \<noteq> [] \<and>
     (if length t = 2 then (48::int) \<le> of_char (t ! 0)
      else \<exists>n\<ge>0. stoi (if last t = CHR ''#'' then take (length t - 2) t else butlast t) = Inr n)"
  shows "decodeTokens eTokens =
     Inr (map (\<lambda>t. if length t = 2 then replicate (nat (of_char (t ! 0) - 48)) (t ! 1)
                   else if last t = CHR ''#''
                   then replicate (nat (projr (stoi (take (length t - 2) t)))) (CHR ''#'')
                   else replicate (nat (projr (stoi (butlast t)))) (last t)) eTokens) \<and>
     (\<forall>t rest. t \<noteq> [] \<and> hd t = CHR ''#'' \<longrightarrow>
        decodeTokens (eTokens @ t # rest) =
          Inl (if length t = 2 then Length_error else Invalid_argument ''stoi''))"
proof -
  let ?f = "\<lambda>t. if length t = 2 then replicate (nat (of_char (t ! 0) - 48)) (t ! 1)
                   else if last t = CHR ''#''
                   then replicate (nat (projr (stoi (take (length t - 2) t)))) (CHR ''#'')
                   else replicate (nat (projr (stoi (butlast t)))) (last t)"
  have each: "\<forall>t\<in>set eTokens. decodeToken t = Inr (?f t)"
  proof
    fix t assume "t \<in> set eTokens"
    with assms have "t \<noteq> []" and "if length t = 2 then (48::int) \<le> of_char (t ! 0)
      else \<exists>n\<ge>0. stoi (if last t = CHR ''#'' then take (length t - 2) t else butlast t) = Inr n"
      by blast+
    then show "decodeToken t = Inr (?f t)" by (rule decodeToken_decodable)
  qed
  have "decodeTokens eTokens = Inr (map ?f eTokens)"
  proof (cases "eTokens = []")
    case True
    then show ?thesis by (simp add: decodeTokens_def)
  next
    case False
    then show ?thesis
      using decodeTokens_loop_all [OF each, of 0 "[]"] by (simp add: decodeTokens_def)
  qed
  moreover have "decodeTokens (eTokens @ t # rest) =
      Inl (if length t = 2 then Length_error else Invalid_argument ''stoi'')"
    if "t \<noteq> [] \<and> hd t = CHR ''#''" for t rest
  proof -
    from that have "decodeToken t = Inl (if length t = 2 then Length_error else Invalid_argument ''stoi'')"
      by (intro decodeToken_leading_marker) simp_all
    from decodeTokens_loop_first_failure [OF each this, of 0 rest "[]"]
    show ?thesis by (simp add: decodeTokens_def)
  qed
  ultimately show ?thesis by blast
qed

theorem decodeTokens_dispatch_by_shape_witness:
  "decodeTokens [''3a'', ''10##'', ''12b''] = Inr [''aaa'', ''##########'', ''bbbbbbbbbbbb''] \<and>
   decodeTokens [''3a'', ''10##'', ''12b'', ''#10a'', ''2c''] = Inl (Invalid_argument ''stoi'') \<and>
   decodeTokens [''3a'', ''10##'', ''12b'', ''#a''] = Inl Length_error"
proof -
  let ?e = "[''3a'', ''10##'', ''12b'']"
  have s10: "stoi ''10'' = Inr 10" and s12: "stoi ''12'' = Inr 12" by code_simp+
  have hyp: "\<forall>t\<in>set ?e. t \<noteq> [] \<and>
     (if length t = 2 then (48::int) \<le> of_char (t ! 0)
      else \<exists>n\<ge>0. stoi (if last t = CHR ''#'' then take (length t - 2) t else butlast t) = Inr n)"
    by (simp add: s10 s12)
  have m: "map (\<lambda>t. if length t = 2 then replicate (nat (of_char (t ! 0) - 48)) (t ! 1)
                   else if last t = CHR ''#''
                   then replicate (nat (projr (stoi (take (length t - 2) t)))) (CHR ''#'')
                   else replicate (nat (projr (stoi (butlast t)))) (last t)) ?e =
           [''aaa'', ''##########'', ''bbbbbbbbbbbb'']"
    by code_simp
  note both = decodeTokens_dispatch_by_shape [OF hyp]
  from both have a: "decodeTokens ?e = Inr [''aaa'', ''##########'', ''bbbbbbbbbbbb'']"
    unfolding m by (rule conjunct1)
  from both have all: "\<forall>t rest. t \<noteq> [] \<and> hd t = CHR ''#'' \<longrightarrow>
        decodeTokens (?e @ t # rest) =
          Inl (if length t = 2 then Length_error else Invalid_argument ''stoi'')"
    by (rule conjunct2)
  from all [rule_format, of "''#10a''" "[''2c'']"]
  have b: "decodeTokens [''3a'', ''10##'', ''12b'', ''#10a'', ''2c''] = Inl (Invalid_argument ''stoi'')"
    by simp
  from all [rule_format, of "''#a''" "[]"]
  have c: "decodeTokens [''3a'', ''10##'', ''12b'', ''#a''] = Inl Length_error"
    by simp
  from a b c show ?thesis by blast
qed

text \<open>
  C5 as stated fails on a token that still carries its leading marker: \<open>stoi\<close> finds no digit at
  the start of \<open>#10\<close>. The same token without the marker is decoded.
\<close>

theorem decodeTokens_keeps_a_leading_marker:
  "decodeTokens [''#10a''] = Inl (Invalid_argument ''stoi'') \<and>
   decodeTokens [''10a''] = Inr [''aaaaaaaaaa'']"
  by code_simp

section \<open>The documented examples, evaluated\<close>

text \<open>
  C8. The runs \<open>111\<close> and \<open>aa\<close> (which is how \<open>tokenizeUnencoded\<close> splits \<open>111aa\<close>) are
  encoded as \<open>31\<close> and \<open>#2a\<close>: the second token is escaped with a leading \<open>#\<close> because the
  first run is a run of digits. The scanner splits the concatenated encoding \<open>31#2a\<close> into the
  tokens \<open>31\<close> and \<open>2a\<close>, and these decode to the two original runs, in order.
\<close>

theorem digit_run_then_escaped_token:
  "tokenizeUnencoded ''111aa'' = Inr [''111'', ''aa''] \<and>
   encodeTokens [''111'', ''aa''] = Inr [''31'', ''#2a''] \<and>
   vectorConcatenate [''31'', ''#2a''] = ''31#2a'' \<and>
   tokenizeEncoded ''31#2a'' = Inr [''31'', ''2a''] \<and>
   decodeTokens [''31'', ''2a''] = Inr [''111'', ''aa''] \<and>
   decode ''31#2a'' = Inr ''111aa''"
  by code_simp

section \<open>Where the code departs from its documentation\<close>

text \<open>
  C1. The round trip fails on the two-character buffer \<open>#1\<close>. Its runs \<open>#\<close> and \<open>1\<close> are
  encoded as \<open>1##\<close> and \<open>11\<close>. Scanning \<open>1##11\<close>, the digit \<open>1\<close> takes the next character
  with it as the token \<open>1#\<close>; the second \<open>#\<close>, read in the normal state, opens a long
  sequence; the digits \<open>11\<close> after it are accumulated and the buffer ends before any character
  closes the token. The run of \<open>1\<close> is lost: the decoded buffer is \<open>#\<close>.
  A line feed at the end of the buffer, as \<^verbatim>\<open>readFile\<close> appends, closes that token, but not
  every one: in the encoding of \<open>#\<close>, ten \<open>a\<close> and a line feed, the second \<open>#\<close> of \<open>1##\<close>
  opens a long sequence, the marker of \<open>#10a\<close> closes it at once, and the scanner returns an
  empty token, on which \<open>decodeTokens\<close> calls \<^verbatim>\<open>back()\<close>.
\<close>

theorem round_trip_fails_after_hash_run:
  "encode ''#1'' = Inr ''1##11'' \<and>
   tokenizeEncoded ''1##11'' = Inr [''1#''] \<and>
   decode ''1##11'' = Inr ''#'' \<and>
   encode (''#aaaaaaaaaa'' @ [CHR 0x0A]) = Inr (''1###10a1'' @ [CHR 0x0A]) \<and>
   tokenizeEncoded (''1###10a1'' @ [CHR 0x0A]) =
     Inr [''1#'', [], ''10a'', [CHR ''1'', CHR 0x0A]] \<and>
   decode (''1###10a1'' @ [CHR 0x0A]) = Inl Undefined_behaviour"
  by code_simp

text \<open>
  C2. The one-character buffer \<open>a\<close> is accepted: the test that raises the error asks for a
  character that is not a line feed and is not the last of the buffer, so a character with no count
  in the last position is skipped. No token is returned and the buffer decodes to the empty string.
  The same test lets a line feed pass anywhere in the normal state, not only at the end. With a
  line feed after it the \<open>a\<close> is no longer last, and the error is raised for position 0.
\<close>

theorem bare_character_is_not_rejected:
  "tokenizeEncoded ''a'' = Inr [] \<and> decode ''a'' = Inr [] \<and>
   tokenizeEncoded [CHR 0x0A, CHR ''3'', CHR ''a''] = Inr [''3a''] \<and>
   tokenizeEncoded (''a'' @ [CHR 0x0A]) =
     Inl (Invalid_argument ''Invalid encoded sequence. Non-digit char at position 0'')"
  by code_simp

text \<open>
  C9. Encoding \<open>#1\<close> twice gives \<open>1##11\<close> and then \<open>11#2##21\<close>. The scanner loses the last
  token of the second encoding (the digits \<open>21\<close> stay in an open long sequence), so the first
  decoding gives \<open>1##\<close>, not \<open>1##11\<close>, and the second gives \<open>#\<close>, not \<open>#1\<close>.
\<close>

theorem double_round_trip_fails_after_hash_run:
  "encode ''#1'' = Inr ''1##11'' \<and>
   encode ''1##11'' = Inr ''11#2##21'' \<and>
   decode ''11#2##21'' = Inr ''1##'' \<and>
   decode ''1##'' = Inr ''#''"
  by code_simp

end
